theory Spec2Isabelle
  imports Main "HOL-Library.Sublist" "HOL-Library.Word"
begin

section \<open>The README emitter of \<open>addendum/e_ai_summarize/README.py\<close>\<close>

text \<open>
  The script holds a template in the variable \<open>readme_content\<close>, replaces every
  \<open>{{CODE}}\<close> by three backticks with \<open>str.replace\<close>, writes the result to
  \<open>README.md\<close> inside a \<open>with open(...)\<close> block and prints one line.

  A Python \<open>str\<close> is a sequence of Unicode code points, so a string is a list of code
  points here and \<open>length\<close> counts what \<open>len\<close> counts. \<open>str\<close> turns an ASCII literal
  into its code points.
\<close>

subsection \<open>Strings\<close>

type_synonym codepoint = nat
type_synonym pystr = "codepoint list"

definition str :: "string \<Rightarrow> pystr" where
  "str s = map of_char s"

text \<open>
  \<open>s.replace(old, new)\<close>: the scan runs left to right; where \<open>old\<close> starts at the
  current position, \<open>new\<close> is emitted and the scan resumes after the occurrence, otherwise
  one character is copied. What has been emitted is never read again. With an empty
  \<open>old\<close> Python puts \<open>new\<close> before every character and at the end.
\<close>

fun replace_from :: "'a list \<Rightarrow> 'a list \<Rightarrow> 'a list \<Rightarrow> 'a list" where
  "replace_from old new [] = []"
| "replace_from old new (c # cs) =
     (if old \<noteq> [] \<and> prefix old (c # cs)
      then new @ replace_from old new (drop (length old) (c # cs))
      else c # replace_from old new cs)"

definition replace :: "'a list \<Rightarrow> 'a list \<Rightarrow> 'a list \<Rightarrow> 'a list" where
  "replace s old new =
     (if old = [] then new @ concat (map (\<lambda>c. c # new) s) else replace_from old new s)"

text \<open>
  \<open>s.count(sub)\<close>, the number of non-overlapping occurrences of \<open>sub\<close> in \<open>s\<close>, found
  by the same scan; \<open>len(s) + 1\<close> for the empty \<open>sub\<close>.
\<close>

fun count_from :: "'a list \<Rightarrow> 'a list \<Rightarrow> nat" where
  "count_from sub [] = 0"
| "count_from sub (c # cs) =
     (if sub \<noteq> [] \<and> prefix sub (c # cs)
      then Suc (count_from sub (drop (length sub) (c # cs)))
      else count_from sub cs)"

definition count :: "'a list \<Rightarrow> 'a list \<Rightarrow> nat" where
  "count s sub = (if sub = [] then length s + 1 else count_from sub s)"

text \<open>
  The two literals of line 168, and the line itself as a function of the template:
  \<^verbatim>\<open>readme_content = readme_content.replace("{{CODE}}", "```")\<close>
\<close>

definition placeholder :: pystr where
  "placeholder = str ''{{CODE}}''"

definition delimiter :: pystr where
  "delimiter = str ''```''"

definition render :: "pystr \<Rightarrow> pystr" where
  "render template = replace template placeholder delimiter"

text \<open>
  The specification speaks of the occurrences that are replaced and of the text that is
  not. \<open>segments old s\<close> are the pieces of \<open>s\<close> between the occurrences of \<open>old\<close>
  (what \<open>s.split(old)\<close> returns), and \<open>join sep\<close> puts pieces together again with
  \<open>sep\<close> between them (\<open>sep.join\<close>). The script uses neither: they state what
  "all occurrences and nothing else" means.
\<close>

fun segments :: "'a list \<Rightarrow> 'a list \<Rightarrow> 'a list list" where
  "segments old [] = [[]]"
| "segments old (c # cs) =
     (if old \<noteq> [] \<and> prefix old (c # cs)
      then [] # segments old (drop (length old) (c # cs))
      else (case segments old cs of
              [] \<Rightarrow> [[c]]
            | seg # segs \<Rightarrow> (c # seg) # segs))"

fun join :: "'a list \<Rightarrow> 'a list list \<Rightarrow> 'a list" where
  "join sep [] = []"
| "join sep [x] = x"
| "join sep (x # y # ys) = x @ sep @ join sep (y # ys)"

subsection \<open>The template\<close>

text \<open>
  Lines 1 to 165 assign a triple-quoted literal to \<open>readme_content\<close>. Every line of the
  literal ends with a newline (code point 10), the last one too. The literal is not raw:
  the two newline escapes in the Rust example (lines 104 and 108) are newlines, so each of these
  source lines is two lines of the string. The dash in the third line is U+2014, code
  point 8212; every other character is ASCII.
\<close>

definition readme_lines :: "pystr list" where
  \<open>readme_lines =
   [str ''# e_ai_summarize'',
    str '''',
    str ''e_ai_summarize is a GenAI-powered Rust source code summarizer and crate recreator. It analyzes Rust source files to provide concise, insightful summaries'' @ [8212] @ str ''including key functionality, used crates, safety considerations, and file operations. Additionally, it now supports generating scripts (in Rust or Python) to recreate a crate from a given source folder.'',
    str '''',
    str ''---'',
    str '''',
    str ''## Features'',
    str '''',
    str ''- **Source Code Analysis:**'',
    str ''  - Summarizes the primary functionality of Rust source code.'',
    str ''  - Identifies which crates are used within the code.'',
    str ''  - Assesses code safety with a `SAFE_TO_RUN: YES/NO` verdict and explanation.'',
    str ''  - Detects file operations and provides a `FILE_OPERATIONS: YES/NO` verdict with details.'',
    str '''',
    str ''- **Interactive Follow-up Mode:**'',
    str ''  - Supports interactive questioning for deeper insights into the code analysis.'',
    str ''  - Offers a single follow-up question option for quick queries.'',
    str '''',
    str ''- **Output Flexibility:**'',
    str ''  - Choose between streaming and non-streaming output for summarization.'',
    str '''',
    str ''- **Crate Recreation:**'',
    str ''  - **Generate a Python script:** Creates a script that recreates the crate structure from the provided source folder.'',
    str ''  - **Generate a Rust script:** Creates a Rust script to recreate the crate.'',
    str ''  - Option to process only the `src` subfolder when recreating the crate.'',
    str '''',
    str ''---'',
    str '''',
    str ''## Installation'',
    str '''',
    str ''Add e_ai_summarize as a dependency in your `Cargo.toml`.'',
    str '''',
    str ''---'',
    str '''',
    str ''## Usage'',
    str '''',
    str ''### Command-Line Interface'',
    str '''',
    str ''The tool now offers two main modes: **Summarization** and **Crate Recreation**.'',
    str '''',
    str ''#### Summarization Mode'',
    str '''',
    str ''- **Summarize a Rust source file:**'',
    str '''',
    str ''  {{CODE}}bash'',
    str ''  cargo run -- path/to/source_file.rs'',
    str ''  {{CODE}}'',
    str '''',
    str ''- **Interactive Follow-up Mode:**'',
    str '''',
    str ''  Run in interactive mode to ask follow-up questions after the summary is generated:'',
    str '''',
    str ''  {{CODE}}bash'',
    str ''  cargo run -- path/to/source_file.rs --stdin'',
    str ''  {{CODE}}'',
    str '''',
    str ''- **Single Follow-up Question:**'',
    str '''',
    str ''  Provide a single follow-up question with the `-q` option:'',
    str '''',
    str ''  {{CODE}}bash'',
    str ''  cargo run -- path/to/source_file.rs -q "Does this code handle errors properly?"'',
    str ''  {{CODE}}'',
    str '''',
    str ''- **Enable Streaming Mode:**'',
    str '''',
    str ''  Use the `--streaming` flag for streaming output:'',
    str '''',
    str ''  {{CODE}}bash'',
    str ''  cargo run -- path/to/source_file.rs --streaming'',
    str ''  {{CODE}}'',
    str '''',
    str ''If no file is specified, e_ai_summarize will default to analyzing its own source code as a demonstration.'',
    str '''',
    str ''#### Crate Recreation Mode'',
    str '''',
    str ''- **Generate a Rust script to recreate the crate:**'',
    str '''',
    str ''  Use the `--recreate-crate-rs` flag. Optionally, provide a source folder (defaults to the current directory) and add `--src-only` to process only the `src` subfolder.'',
    str '''',
    str ''  {{CODE}}bash'',
    str ''  cargo run -- path/to/source_folder --recreate-crate-rs [--src-only]'',
    str ''  {{CODE}}'',
    str '''',
    str ''- **Generate a Python script to recreate the crate:**'',
    str '''',
    str ''  Use the `--recreate-crate-py` flag. Similar to the Rust mode, you can specify a source folder and use `--src-only` if needed.'',
    str '''',
    str ''  {{CODE}}bash'',
    str ''  cargo run -- path/to/source_folder --recreate-crate-py [--src-only]'',
    str ''  {{CODE}}'',
    str '''',
    str ''### Programmatic Usage'',
    str '''',
    str ''You can also integrate e_ai_summarize into your own Rust projects. For example:'',
    str '''',
    str ''{{CODE}}rust'',
    str ''use e_ai_summarize::summarizer::{self, ChatSession};'',
    str '''',
    str ''#[tokio::main]'',
    str ''async fn main() -> Result<(), Box<dyn std::error::Error>> {'',
    str ''    // Summarize a source file'',
    str ''    let (summary, mut session) = summarizer::summarize_source_session(Some("path/to/source_file.rs"), true).await?;'',
    str ''    println!("Summary:'',
    str ''{}", summary);'',
    str '''',
    str ''    // Optionally, ask a follow-up question'',
    str ''    let followup = session.ask("Can you elaborate on the error handling?").await?;'',
    str ''    println!("Follow-up Answer:'',
    str ''{}", followup);'',
    str '''',
    str ''    Ok(())'',
    str ''}'',
    str ''{{CODE}}'',
    str '''',
    str ''---'',
    str '''',
    str ''## How It Works'',
    str '''',
    str ''1. **Parsing Input:**'',
    str ''   - Reads the provided Rust source file or, if no file is given, defaults to its own source code.'',
    str ''   - When in crate recreation mode, processes the provided source folder (or defaults to the current directory), optionally limiting to the `src` subfolder.'',
    str '''',
    str ''2. **Prompt Construction:**'',
    str ''   - Constructs a detailed prompt for analyzing the code's main functionality, used crates, safety, file operations, and any limitations.'',
    str '''',
    str ''3. **GenAI-Powered Chat Session:**'',
    str ''   - Leverages a GenAI model (e.g., "gpt-4o-mini") to generate the summary or script, with support for both streaming and non-streaming outputs.'',
    str '''',
    str ''4. **Interactive Querying:**'',
    str ''   - After the initial summary, users can enter interactive mode or ask single follow-up questions for further insights.'',
    str '''',
    str ''5. **Crate Recreation:**'',
    str ''   - Depending on the flags provided, the tool generates either a Python or Rust script that recreates the crate structure.'',
    str '''',
    str ''---'',
    str '''',
    str ''## Dependencies'',
    str '''',
    str ''- **Rust Async Runtime:** Uses [Tokio](https://tokio.rs/) for asynchronous operations.'',
    str ''- **Command-Line Parsing:** Uses [clap](https://github.com/clap-rs/clap) for handling command-line arguments.'',
    str ''- **Interactive Input:** Integrates [rustyline](https://github.com/kkawakam/rustyline) for interactive command-line input.'',
    str ''- **Logging:** Uses [env_logger](https://github.com/env-logger-rs/env_logger) and [log](https://docs.rs/log) for logging.'',
    str ''- **GenAI Client:** Powered by the GenAI library to perform the actual code analysis.'',
    str '''',
    str ''---'',
    str '''',
    str ''## Contributing'',
    str '''',
    str ''Contributions are welcome! Please feel free to open issues or submit pull requests for enhancements and bug fixes.'',
    str '''',
    str ''---'',
    str '''',
    str ''## License'',
    str '''',
    str ''Distributed under the MIT License. See [LICENSE](LICENSE) for more information.'',
    str '''',
    str ''---'',
    str '''',
    str ''## Acknowledgements'',
    str '''',
    str ''Thanks to the contributors of the GenAI library and the broader Rust community for their continuous support and innovation in open-source projects.'',
    str '''',
    str ''Enjoy using e_ai_summarize for all your Rust code analysis and crate recreation needs!'',
    str '''',
    str ''*Created by Your David Horner around 3/25*'']\<close>

definition lines_join :: "pystr list \<Rightarrow> pystr" where
  "lines_join ls = concat (map (\<lambda>l. l @ [10]) ls)"

definition readme_content :: pystr where
  "readme_content = lines_join readme_lines"

subsection \<open>The file system, the \<open>with\<close> block and the script\<close>

text \<open>
  Lines 171 to 174:
  \<^verbatim>\<open>
  with open("README.md", "w", encoding="utf-8") as file:
      file.write(readme_content)
  print("README.md has been written successfully.")
  \<close>
  The specification calls every \<open>OSError\<close> of the file operations a \<open>StorageError\<close>.
  The codec raises \<open>UnicodeEncodeError\<close> for a surrogate code point; code points end at
  U+10FFFF.
\<close>

datatype error = StorageError | UnicodeEncodeError

type_synonym byte = "8 word"
type_synonym path = string

definition encode_char :: "codepoint \<Rightarrow> error + byte list" where
  "encode_char c =
     (if c < 0x80 then Inr [of_nat c]
      else if c < 0x800 then Inr [of_nat (0xC0 + c div 0x40), of_nat (0x80 + c mod 0x40)]
      else if 0xD800 \<le> c \<and> c < 0xE000 then Inl UnicodeEncodeError
      else if c < 0x10000 then
        Inr [of_nat (0xE0 + c div 0x1000), of_nat (0x80 + c div 0x40 mod 0x40),
             of_nat (0x80 + c mod 0x40)]
      else if c < 0x110000 then
        Inr [of_nat (0xF0 + c div 0x40000), of_nat (0x80 + c div 0x1000 mod 0x40),
             of_nat (0x80 + c div 0x40 mod 0x40), of_nat (0x80 + c mod 0x40)]
      else Inl UnicodeEncodeError)"

fun encode_utf8 :: "pystr \<Rightarrow> error + byte list" where
  "encode_utf8 [] = Inr []"
| "encode_utf8 (c # cs) =
     (case encode_char c of
        Inl e \<Rightarrow> Inl e
      | Inr bs \<Rightarrow> (case encode_utf8 cs of Inl e \<Rightarrow> Inl e | Inr rest \<Rightarrow> Inr (bs @ rest)))"

text \<open>
  The world the script runs in: the files with their bytes, the descriptors that are
  open, the lines printed so far, and the file operations the script has performed, in
  order.
\<close>

datatype syscall = SysOpen path | SysWrite path | SysClose path

record world =
  files :: "path \<rightharpoonup> byte list"
  handles :: "path list"
  stdout :: "pystr list"
  syscalls :: "syscall list"

text \<open>
  What the script cannot decide is decided by the environment of a run: whether the
  destination can be opened for writing, and whether the data reach it. \<open>write_fails\<close>
  is \<open>Some n\<close> when the device takes \<open>n\<close> bytes and then fails. The runtime may hold the
  data back until \<open>close\<close> flushes them; the failure is then raised by \<open>close\<close>, after
  the descriptor is released, and leaves the \<open>with\<close> block as it does here.
\<close>

datatype line_separator = LF | CRLF

record env =
  open_fails :: bool
  write_fails :: "nat option"
  linesep :: line_separator

text \<open>
  The file is opened in text mode and \<open>open\<close> is given no \<open>newline\<close> argument, so
  every newline that is written becomes the line separator of the platform,
  \<open>os.linesep\<close>: a line feed on POSIX, carriage return and line feed on Windows. The
  text layer does this with \<open>replace\<close>, before it encodes, and leaves the string alone
  where the separator is the line feed.
\<close>

fun os_linesep :: "line_separator \<Rightarrow> pystr" where
  "os_linesep LF = [10]"
| "os_linesep CRLF = [13, 10]"

definition translate_newlines :: "pystr \<Rightarrow> pystr \<Rightarrow> pystr" where
  "translate_newlines sep s = (if sep = [10] then s else replace s [10] sep)"

text \<open>The number of bytes that UTF-8 takes for a code point.\<close>

definition utf8_width :: "codepoint \<Rightarrow> nat" where
  "utf8_width c = (if c < 0x80 then 1 else if c < 0x800 then 2 else if c < 0x10000 then 3 else 4)"

text \<open>
  \<open>open(p, "w", encoding="utf-8")\<close> creates or truncates the file and returns the
  file object; \<open>file.write\<close> translates the newlines of the string, encodes it and
  appends the bytes; \<open>close\<close> releases the descriptor.
\<close>

definition py_open :: "env \<Rightarrow> path \<Rightarrow> world \<Rightarrow> (error + path) \<times> world" where
  "py_open env p w =
     (if open_fails env
      then (Inl StorageError, w\<lparr>syscalls := syscalls w @ [SysOpen p]\<rparr>)
      else (Inr p, w\<lparr>files := (files w)(p \<mapsto> []),
                         handles := p # handles w,
                         syscalls := syscalls w @ [SysOpen p]\<rparr>))"

definition file_write :: "env \<Rightarrow> path \<Rightarrow> pystr \<Rightarrow> world \<Rightarrow> (error + nat) \<times> world" where
  "file_write env file s w =
     (case encode_utf8 (translate_newlines (os_linesep (linesep env)) s) of
        Inl e \<Rightarrow> (Inl e, w)
      | Inr bs \<Rightarrow>
          (let old = (case files w file of None \<Rightarrow> [] | Some b \<Rightarrow> b) in
           case write_fails env of
             None \<Rightarrow>
               (Inr (length s), w\<lparr>files := (files w)(file \<mapsto> old @ bs),
                                     syscalls := syscalls w @ [SysWrite file]\<rparr>)
           | Some n \<Rightarrow>
               (Inl StorageError, w\<lparr>files := (files w)(file \<mapsto> old @ take n bs),
                                      syscalls := syscalls w @ [SysWrite file]\<rparr>)))"

definition file_close :: "path \<Rightarrow> world \<Rightarrow> world" where
  "file_close file w =
     w\<lparr>handles := remove1 file (handles w), syscalls := syscalls w @ [SysClose file]\<rparr>"

definition py_print :: "pystr \<Rightarrow> world \<Rightarrow> world" where
  "py_print s w = w\<lparr>stdout := stdout w @ [s]\<rparr>"

text \<open>
  The \<open>with\<close> block: when \<open>open\<close> raises, the body does not run; otherwise the body
  runs, the file is closed whether the body raised or not, and an exception of the body
  is raised again after that.
\<close>

definition with_open_write :: "path \<Rightarrow> pystr \<Rightarrow> env \<Rightarrow> world \<Rightarrow> (error + unit) \<times> world" where
  "with_open_write p content env w =
     (case py_open env p w of
        (Inl e, w1) \<Rightarrow> (Inl e, w1)
      | (Inr file, w1) \<Rightarrow>
          (case file_write env file content w1 of
             (Inl e, w2) \<Rightarrow> (Inl e, file_close file w2)
           | (Inr n, w2) \<Rightarrow> (Inr (), file_close file w2)))"

text \<open>
  The script from line 168 on. An exception ends it, so the line is printed only when the
  \<open>with\<close> block returns.
\<close>

definition main :: "env \<Rightarrow> world \<Rightarrow> (error + unit) \<times> world" where
  "main env w =
     (case with_open_write ''README.md'' (render readme_content) env w of
        (Inl e, w1) \<Rightarrow> (Inl e, w1)
      | (Inr u, w1) \<Rightarrow> (Inr (), py_print (str ''README.md has been written successfully.'') w1))"

subsection \<open>Properties of the scan\<close>

lemma placeholder_eq: "placeholder = [123, 123, 67, 79, 68, 69, 125, 125]"
  by (simp add: placeholder_def str_def)

lemma delimiter_eq: "delimiter = [96, 96, 96]"
  by (simp add: delimiter_def str_def)


lemma length_replace_from:
  "int (length (replace_from old new s)) =
     int (length s) + (int (length new) - int (length old)) * int (count_from old s)"
proof (induction old new s rule: replace_from.induct)
  case (1 old new)
  show ?case by simp
next
  case (2 old new c cs)
  show ?case
  proof (cases "old \<noteq> [] \<and> prefix old (c # cs)")
    case True
    then have le: "length old \<le> length (c # cs)"
      using prefix_length_le [of old "c # cs"] by simp
    from True 2(1) have IH: "int (length (replace_from old new (drop (length old) (c # cs)))) =
        int (length (drop (length old) (c # cs))) +
        (int (length new) - int (length old)) * int (count_from old (drop (length old) (c # cs)))"
      by blast
    have "int (length (drop (length old) (c # cs))) = int (length (c # cs)) - int (length old)"
      using le by (simp add: of_nat_diff)
    with True IH show ?thesis
      by (simp add: algebra_simps)
  next
    case False
    then have step: "replace_from old new (c # cs) = c # replace_from old new cs"
      "count_from old (c # cs) = count_from old cs"
      by auto
    from False 2(2) have "int (length (replace_from old new cs)) =
        int (length cs) + (int (length new) - int (length old)) * int (count_from old cs)"
      by blast
    with step show ?thesis
      by simp
  qed
qed

lemma length_concat_sep:
  "length (concat (map (\<lambda>c. c # new) s)) = length s * (1 + length new)"
  by (induction s) simp_all

lemma length_replace:
  "int (length (replace s old new)) =
     int (length s) + (int (length new) - int (length old)) * int (count s old)"
proof (cases "old = []")
  case True
  then show ?thesis
    by (simp add: replace_def count_def length_concat_sep algebra_simps)
next
  case False
  then show ?thesis
    by (simp add: replace_def count_def length_replace_from)
qed

lemma replace_from_none: "count_from old s = 0 \<Longrightarrow> replace_from old new s = s"
  by (induction old new s rule: replace_from.induct) (auto split: if_splits)

lemma replace_none: "count s old = 0 \<Longrightarrow> replace s old new = s"
  by (auto simp: count_def replace_def replace_from_none split: if_splits)

lemma prefix_append_short:
  "prefix u (v @ w) \<Longrightarrow> length u \<le> length v \<Longrightarrow> prefix u v"
  by (metis prefix_length_prefix prefixI)

lemma replace_from_at_first:
  assumes "old \<noteq> []" and "count_from old (pre @ butlast old) = 0"
  shows "replace_from old new (pre @ old @ rest) = pre @ new @ replace_from old new rest"
  using assms(2)
proof (induction pre)
  case Nil
  from assms(1) obtain x xs where old: "old = x # xs"
    by (cases old) auto
  show ?case
    by (simp add: old)
next
  case (Cons c pre)
  from Cons.prems assms(1) have np: "\<not> prefix old (c # pre @ butlast old)"
    and z: "count_from old (pre @ butlast old) = 0"
    by (auto split: if_splits)
  have "\<not> prefix old (c # pre @ old @ rest)"
  proof
    assume p: "prefix old (c # pre @ old @ rest)"
    have split: "c # pre @ old @ rest = (c # pre @ butlast old) @ (last old # rest)"
      using assms(1) by simp
    have "length old \<le> length (c # pre @ butlast old)"
      by simp
    with p split have "prefix old (c # pre @ butlast old)"
      using prefix_append_short [of old "c # pre @ butlast old" "last old # rest"] by simp
    with np show False ..
  qed
  with Cons.IH [OF z] show ?case
    by simp
qed

lemma segments_not_Nil: "segments old s \<noteq> []"
  by (induction old s rule: segments.induct) (auto split: list.splits)

lemma join_Cons_Cons: "join sep ((c # x) # xs) = c # join sep (x # xs)"
  by (cases xs) simp_all

lemma join_Nil_Cons: "xs \<noteq> [] \<Longrightarrow> join sep ([] # xs) = sep @ join sep xs"
  by (cases xs) simp_all

lemma prefix_drop_eq: "prefix old s \<Longrightarrow> old @ drop (length old) s = s"
  by (auto simp: prefix_def)

lemma join_segments_old: "join old (segments old s) = s"
proof (induction old s rule: segments.induct)
  case (1 old)
  show ?case by simp
next
  case (2 old c cs)
  show ?case
  proof (cases "old \<noteq> [] \<and> prefix old (c # cs)")
    case True
    with 2(1) have "join old (segments old (drop (length old) (c # cs))) = drop (length old) (c # cs)"
      by blast
    with True show ?thesis
      by (simp add: join_Nil_Cons segments_not_Nil prefix_drop_eq del: drop_Suc_Cons)
  next
    case False
    with 2(2) have IH: "join old (segments old cs) = cs"
      by blast
    obtain seg segs where sg: "segments old cs = seg # segs"
      using segments_not_Nil [of old cs] by (cases "segments old cs") auto
    from False have "segments old (c # cs) = (c # seg) # segs"
      by (auto simp: sg)
    with IH sg show ?thesis
      by (simp add: join_Cons_Cons)
  qed
qed

lemma join_segments_new: "join new (segments old s) = replace_from old new s"
proof (induction old s rule: segments.induct)
  case (1 old)
  show ?case by simp
next
  case (2 old c cs)
  show ?case
  proof (cases "old \<noteq> [] \<and> prefix old (c # cs)")
    case True
    with 2(1) have "join new (segments old (drop (length old) (c # cs))) =
        replace_from old new (drop (length old) (c # cs))"
      by blast
    with True show ?thesis
      by (simp add: join_Nil_Cons segments_not_Nil del: drop_Suc_Cons)
  next
    case False
    with 2(2) have IH: "join new (segments old cs) = replace_from old new cs"
      by blast
    obtain seg segs where sg: "segments old cs = seg # segs"
      using segments_not_Nil [of old cs] by (cases "segments old cs") auto
    from False have "segments old (c # cs) = (c # seg) # segs"
      "replace_from old new (c # cs) = c # replace_from old new cs"
      by (auto simp: sg)
    with IH sg show ?thesis
      by (simp add: join_Cons_Cons)
  qed
qed

lemma length_segments: "length (segments old s) = Suc (count_from old s)"
  by (induction old s rule: segments.induct) (auto split: list.splits simp: segments_not_Nil)

lemma hd_segments_prefix: "segments old s = seg # segs \<Longrightarrow> prefix seg s"
proof (induction old s arbitrary: seg segs rule: segments.induct)
  case (1 old)
  then show ?case by simp
next
  case (2 old c cs)
  show ?case
  proof (cases "old \<noteq> [] \<and> prefix old (c # cs)")
    case True
    with 2(3) show ?thesis by auto
  next
    case False
    obtain seg' segs' where sg: "segments old cs = seg' # segs'"
      using segments_not_Nil [of old cs] by (cases "segments old cs") auto
    with False 2(2) have "prefix seg' cs"
      by blast
    moreover from False sg 2(3) have "seg = c # seg'"
      by auto
    ultimately show ?thesis by simp
  qed
qed

lemma segments_free: "list_all (\<lambda>seg. count_from old seg = 0) (segments old s)"
proof (induction old s rule: segments.induct)
  case (1 old)
  show ?case by simp
next
  case (2 old c cs)
  show ?case
  proof (cases "old \<noteq> [] \<and> prefix old (c # cs)")
    case True
    with 2(1) have "list_all (\<lambda>seg. count_from old seg = 0) (segments old (drop (length old) (c # cs)))"
      by blast
    with True show ?thesis
      by (simp del: drop_Suc_Cons)
  next
    case False
    with 2(2) have IH: "list_all (\<lambda>seg. count_from old seg = 0) (segments old cs)"
      by blast
    obtain seg segs where sg: "segments old cs = seg # segs"
      using segments_not_Nil [of old cs] by (cases "segments old cs") auto
    have "prefix seg cs"
      using sg by (rule hd_segments_prefix)
    then have "prefix old (c # seg) \<Longrightarrow> prefix old (c # cs)"
      by (meson Cons_prefix_Cons prefix_order.order_trans)
    with False have np: "old = [] \<or> \<not> prefix old (c # seg)"
      by blast
    from IH sg have "count_from old seg = 0" and rest: "list_all (\<lambda>seg. count_from old seg = 0) segs"
      by simp_all
    with np have "count_from old (c # seg) = 0"
      by auto
    moreover from False have "segments old (c # cs) = (c # seg) # segs"
      by (auto simp: sg)
    ultimately show ?thesis
      using rest by simp
  qed
qed

text \<open>A character that is not in \<open>old\<close> cuts the scan in two.\<close>

lemma count_from_Nil [simp]: "count_from [] s = 0"
  by (induction s) simp_all

lemma replace_from_Nil [simp]: "replace_from [] new s = s"
  by (induction s) simp_all

lemma prefix_sep:
  assumes "sep \<notin> set old"
  shows "prefix old (a @ sep # b) \<longleftrightarrow> prefix old a"
proof
  assume "prefix old (a @ sep # b)"
  then consider "prefix old a" | us where "old = a @ us" "prefix us (sep # b)"
    by (auto simp: prefix_append)
  then show "prefix old a"
  proof cases
    case 1
    then show ?thesis .
  next
    case 2
    show ?thesis
    proof (cases us)
      case Nil
      with 2 show ?thesis by simp
    next
      case (Cons u us')
      with 2 have "sep \<in> set old" by auto
      with assms show ?thesis by simp
    qed
  qed
next
  assume "prefix old a"
  then show "prefix old (a @ sep # b)"
    by (rule prefix_prefix)
qed

lemma drop_append_le: "n \<le> length xs \<Longrightarrow> drop n (xs @ ys) = drop n xs @ ys"
  by simp

lemma count_from_sep:
  "sep \<notin> set old \<Longrightarrow> count_from old (a @ sep # b) = count_from old a + count_from old b"
proof (induction old a rule: count_from.induct)
  case (1 old)
  show ?case
  proof (cases old)
    case Nil
    then show ?thesis by simp
  next
    case (Cons x xs)
    with 1 have "x \<noteq> sep" by auto
    with Cons show ?thesis by simp
  qed
next
  case (2 old c cs)
  have px: "prefix old ((c # cs) @ sep # b) \<longleftrightarrow> prefix old (c # cs)"
    using 2(3) by (rule prefix_sep)
  show ?case
  proof (cases "old \<noteq> [] \<and> prefix old (c # cs)")
    case True
    then have le: "length old \<le> length (c # cs)"
      using prefix_length_le [of old "c # cs"] by simp
    from True 2(1) 2(3) have IH: "count_from old (drop (length old) (c # cs) @ sep # b) =
        count_from old (drop (length old) (c # cs)) + count_from old b"
      by blast
    have "count_from old ((c # cs) @ sep # b) =
        Suc (count_from old (drop (length old) ((c # cs) @ sep # b)))"
      using True px by simp
    also have "drop (length old) ((c # cs) @ sep # b) = drop (length old) (c # cs) @ sep # b"
      using le by (rule drop_append_le)
    finally show ?thesis
      using True IH by simp
  next
    case False
    with 2(2) 2(3) have IH: "count_from old (cs @ sep # b) = count_from old cs + count_from old b"
      by blast
    from False px have "count_from old ((c # cs) @ sep # b) = count_from old (cs @ sep # b)"
      by auto
    with False IH show ?thesis
      by auto
  qed
qed

lemma replace_from_sep:
  "sep \<notin> set old \<Longrightarrow>
     replace_from old new (a @ sep # b) = replace_from old new a @ sep # replace_from old new b"
proof (induction old new a rule: replace_from.induct)
  case (1 old new)
  show ?case
  proof (cases old)
    case Nil
    then show ?thesis by simp
  next
    case (Cons x xs)
    with 1 have "x \<noteq> sep" by auto
    with Cons show ?thesis by simp
  qed
next
  case (2 old new c cs)
  have px: "prefix old ((c # cs) @ sep # b) \<longleftrightarrow> prefix old (c # cs)"
    using 2(3) by (rule prefix_sep)
  show ?case
  proof (cases "old \<noteq> [] \<and> prefix old (c # cs)")
    case True
    then have le: "length old \<le> length (c # cs)"
      using prefix_length_le [of old "c # cs"] by simp
    from True 2(1) 2(3) have IH: "replace_from old new (drop (length old) (c # cs) @ sep # b) =
        replace_from old new (drop (length old) (c # cs)) @ sep # replace_from old new b"
      by blast
    have "replace_from old new ((c # cs) @ sep # b) =
        new @ replace_from old new (drop (length old) ((c # cs) @ sep # b))"
      using True px by simp
    also have "drop (length old) ((c # cs) @ sep # b) = drop (length old) (c # cs) @ sep # b"
      using le by (rule drop_append_le)
    finally show ?thesis
      using True IH by simp
  next
    case False
    with 2(2) 2(3) have IH: "replace_from old new (cs @ sep # b) =
        replace_from old new cs @ sep # replace_from old new b"
      by blast
    from False px have "replace_from old new ((c # cs) @ sep # b) = c # replace_from old new (cs @ sep # b)"
      by auto
    with False IH show ?thesis
      by auto
  qed
qed

text \<open>The scan commutes with an injective renaming of the characters.\<close>

lemma prefix_map_inj: "inj f \<Longrightarrow> prefix (map f xs) (map f ys) \<longleftrightarrow> prefix xs ys"
proof (induction xs arbitrary: ys)
  case Nil
  show ?case by simp
next
  case (Cons x xs)
  then show ?case
    by (cases ys) (auto dest: injD)
qed

lemma count_from_map:
  assumes "inj f"
  shows "count_from (map f old) (map f s) = count_from old s"
proof (induction old s rule: count_from.induct)
  case (1 old)
  show ?case by simp
next
  case (2 old c cs)
  have px: "prefix (map f old) (map f (c # cs)) \<longleftrightarrow> prefix old (c # cs)"
    using assms by (rule prefix_map_inj)
  have dr: "drop (length old) (f c # map f cs) = map f (drop (length old) (c # cs))"
    using drop_map [of "length old" f "c # cs"] by (simp del: drop_Suc_Cons)
  show ?case
  proof (cases "old \<noteq> [] \<and> prefix old (c # cs)")
    case True
    with 2(1) px dr show ?thesis
      by (simp del: drop_Suc_Cons)
  next
    case False
    with 2(2) px show ?thesis
      by auto
  qed
qed

lemma replace_from_map:
  assumes "inj f"
  shows "replace_from (map f old) (map f new) (map f s) = map f (replace_from old new s)"
proof (induction old new s rule: replace_from.induct)
  case (1 old new)
  show ?case by simp
next
  case (2 old new c cs)
  have px: "prefix (map f old) (map f (c # cs)) \<longleftrightarrow> prefix old (c # cs)"
    using assms by (rule prefix_map_inj)
  have dr: "drop (length old) (f c # map f cs) = map f (drop (length old) (c # cs))"
    using drop_map [of "length old" f "c # cs"] by (simp del: drop_Suc_Cons)
  show ?case
  proof (cases "old \<noteq> [] \<and> prefix old (c # cs)")
    case True
    with 2(1) px dr show ?thesis
      by (simp del: drop_Suc_Cons)
  next
    case False
    with 2(2) px show ?thesis
      by auto
  qed
qed

lemma count_from_zero_tl: "count_from x (c # cs) = 0 \<Longrightarrow> count_from x cs = 0"
  by (simp split: if_splits)

lemma count_from_zero_not_prefix: "count_from x s = 0 \<Longrightarrow> x \<noteq> [] \<Longrightarrow> \<not> prefix x s"
  by (cases s) (auto split: if_splits)

lemma count_from_zero_drop: "count_from x s = 0 \<Longrightarrow> count_from x (drop n s) = 0"
proof (induction n arbitrary: s)
  case 0
  then show ?case by simp
next
  case (Suc n)
  show ?case
  proof (cases s)
    case Nil
    then show ?thesis by simp
  next
    case (Cons c cs)
    from Suc.prems have "count_from x (c # cs) = 0"
      unfolding Cons .
    then have "count_from x cs = 0"
      by (rule count_from_zero_tl)
    with Suc.IH Cons show ?thesis by simp
  qed
qed

lemma count_from_run_skip: "b \<notin> set x \<Longrightarrow> count_from [b, b, b] (x @ y) = count_from [b, b, b] y"
  by (induction x) auto

lemma count_from_run:
  "Y = [] \<or> hd Y \<noteq> b \<Longrightarrow>
     count_from [b, b, b] (replicate k b @ Y) = k div 3 + count_from [b, b, b] Y"
proof (induction k rule: less_induct)
  case (less k)
  have tail: "\<not> prefix [b] Y" "\<not> prefix [b, b] Y" "\<not> prefix [b, b, b] Y"
    using less.prems by (cases Y; auto)+
  consider "k = 0" | "k = 1" | "k = 2" | m where "k = Suc (Suc (Suc m))"
    by (metis One_nat_def Suc_1 not0_implies_Suc)
  then show ?case
  proof cases
    case 1
    then show ?thesis by simp
  next
    case 2
    with tail show ?thesis by simp
  next
    case 3
    then have "replicate k b = [b, b]"
      by (simp add: numeral_2_eq_2)
    with tail 3 show ?thesis by simp
  next
    case 4
    then have "m < k" by simp
    from less.IH [OF this less.prems]
    have "count_from [b, b, b] (replicate m b @ Y) = m div 3 + count_from [b, b, b] Y" .
    with 4 show ?thesis by simp
  qed
qed

lemma roundtrip_run:
  assumes b: "b \<notin> set old" and ne: "old \<noteq> []"
  shows "count_from (b # old) s = 0 \<Longrightarrow> (0 < k \<longrightarrow> \<not> prefix old s) \<Longrightarrow>
     count_from [b, b, b] (replicate k b @ replace_from old [b, b, b] s) =
       count_from old s + count_from [b, b, b] (replicate k b @ s)"
proof (induction s arbitrary: k rule: length_induct)
  case (1 s)
  note free = 1(2) and guard = 1(3)
  have IH: "count_from [b, b, b] (replicate j b @ replace_from old [b, b, b] ys) =
      count_from old ys + count_from [b, b, b] (replicate j b @ ys)"
    if "length ys < length s" and "count_from (b # old) ys = 0" and "0 < j \<longrightarrow> \<not> prefix old ys"
    for ys j
    using 1(1) that by blast
  show ?case
  proof (cases s)
    case Nil
    then show ?thesis by simp
  next
    case (Cons c cs)
    show ?thesis
    proof (cases "prefix old s")
      case True
      define rest where "rest = drop (length old) s"
      from True have s: "s = old @ rest"
        by (simp add: rest_def prefix_drop_eq)
      from True guard have k: "k = 0"
        by auto
      have shorter: "length rest < length s"
        using ne by (simp add: s)
      have "count_from (b # old) rest = 0"
        unfolding rest_def using free by (rule count_from_zero_drop)
      with shorter have "count_from [b, b, b] (replicate 0 b @ replace_from old [b, b, b] rest) =
          count_from old rest + count_from [b, b, b] (replicate 0 b @ rest)"
        by (intro IH) simp_all
      then have r: "count_from [b, b, b] (replace_from old [b, b, b] rest) =
          count_from old rest + count_from [b, b, b] rest"
        by simp
      have 1: "replace_from old [b, b, b] s = [b, b, b] @ replace_from old [b, b, b] rest"
        using True ne Cons by (simp add: rest_def del: drop_Suc_Cons)
      have 2: "count_from old s = Suc (count_from old rest)"
        using True ne Cons by (simp add: rest_def del: drop_Suc_Cons)
      have 3: "count_from [b, b, b] s = count_from [b, b, b] rest"
        unfolding s using b by (rule count_from_run_skip)
      from r 1 2 3 k show ?thesis
        by simp
    next
      case False
      from free have "count_from (b # old) (c # cs) = 0"
        unfolding Cons .
      then have free': "count_from (b # old) cs = 0"
        by (rule count_from_zero_tl)
      have step: "replace_from old [b, b, b] s = c # replace_from old [b, b, b] cs"
        "count_from old s = count_from old cs"
        using False Cons by auto
      show ?thesis
      proof (cases "c = b")
        case True
        from free Cons True have "\<not> prefix old cs"
          using count_from_zero_not_prefix [of "b # old" "b # cs"] by simp
        with free' Cons
        have "count_from [b, b, b] (replicate (Suc k) b @ replace_from old [b, b, b] cs) =
            count_from old cs + count_from [b, b, b] (replicate (Suc k) b @ cs)"
          by (intro IH) simp_all
        with step True Cons show ?thesis
          by (simp add: replicate_app_Cons_same)
      next
        case ncb: False
        from free' Cons
        have "count_from [b, b, b] (replicate 0 b @ replace_from old [b, b, b] cs) =
            count_from old cs + count_from [b, b, b] (replicate 0 b @ cs)"
          by (intro IH) simp_all
        then have r: "count_from [b, b, b] (replace_from old [b, b, b] cs) =
            count_from old cs + count_from [b, b, b] cs"
          by simp
        have "count_from [b, b, b] (replicate k b @ c # replace_from old [b, b, b] cs) =
            k div 3 + count_from [b, b, b] (c # replace_from old [b, b, b] cs)"
          using ncb by (intro count_from_run) simp
        moreover have "count_from [b, b, b] (replicate k b @ c # cs) =
            k div 3 + count_from [b, b, b] (c # cs)"
          using ncb by (intro count_from_run) simp
        ultimately show ?thesis
          using r step ncb Cons by simp
      qed
    qed
  qed
qed

lemma roundtrip_from:
  assumes "b \<notin> set old" and "old \<noteq> []" and "count_from (b # old) s = 0"
  shows "count_from [b, b, b] (replace_from old [b, b, b] s) = count_from old s + count_from [b, b, b] s"
  using roundtrip_run [OF assms(1,2,3), of 0] by simp


text \<open>A count of zero means that the pattern is not a substring.\<close>

lemma count_from_zero_iff:
  "old \<noteq> [] \<Longrightarrow> count_from old s = 0 \<longleftrightarrow> \<not> sublist old s"
proof (induction old s rule: count_from.induct)
  case (1 sub)
  then show ?case by simp
next
  case (2 sub c cs)
  show ?case
  proof (cases "prefix sub (c # cs)")
    case True
    with 2(3) show ?thesis
      by (simp add: sublist_Cons_right del: drop_Suc_Cons)
  next
    case False
    with 2(2) 2(3) have "count_from sub cs = 0 \<longleftrightarrow> \<not> sublist sub cs"
      by blast
    with False show ?thesis
      by (simp add: sublist_Cons_right)
  qed
qed

subsection \<open>Evaluating the scan on the template\<close>

text \<open>
  The scan of a literal is evaluated character by character: a character that differs
  from the first one of the pattern is skipped, otherwise the rest of the pattern is
  compared. Literals are compared as characters, before they become code points.
\<close>

lemma count_from_skip:
  "c \<noteq> x \<Longrightarrow> count_from (x # xs) (c # cs) = count_from (x # xs) cs"
  by simp

lemma count_from_hit:
  "count_from (x # xs) (x # cs) =
     (if prefix xs cs then Suc (count_from (x # xs) (drop (length xs) cs))
      else count_from (x # xs) cs)"
  by simp

lemma replace_from_skip:
  "c \<noteq> x \<Longrightarrow> replace_from (x # xs) new (c # cs) = c # replace_from (x # xs) new cs"
  by simp

lemma replace_from_hit:
  "replace_from (x # xs) new (x # cs) =
     (if prefix xs cs then new @ replace_from (x # xs) new (drop (length xs) cs)
      else x # replace_from (x # xs) new cs)"
  by simp

lemmas scan_eval = count_from_skip count_from_hit replace_from_skip replace_from_hit

lemma inj_of_char_nat: "inj (of_char :: char \<Rightarrow> nat)"
  by (simp add: inj_def)

lemma count_from_str: "count_from (str sub) (str s) = count_from sub s"
  unfolding str_def using inj_of_char_nat by (rule count_from_map)

lemma replace_from_str: "replace_from (str old) (str new) (str s) = str (replace_from old new s)"
  unfolding str_def using inj_of_char_nat by (rule replace_from_map)

lemma str_ascii: "c \<in> set (str s) \<Longrightarrow> c < 256"
  by (auto simp: str_def)

lemma dash_not_in_str: "8212 \<notin> set (str s)"
  using str_ascii [of 8212 s] by auto

lemma count_from_dash:
  "count_from (str sub) (a @ 8212 # b) = count_from (str sub) a + count_from (str sub) b"
  using dash_not_in_str by (rule count_from_sep)

lemma replace_from_dash:
  "replace_from (str old) new (a @ 8212 # b) =
     replace_from (str old) new a @ 8212 # replace_from (str old) new b"
  using dash_not_in_str by (rule replace_from_sep)

text \<open>Neither literal has a newline, so every line of the template is scanned on its own.\<close>

lemma lines_join_Nil: "lines_join [] = []"
  by (simp add: lines_join_def)

lemma lines_join_Cons: "lines_join (l # ls) = l @ 10 # lines_join ls"
  by (simp add: lines_join_def)

lemma count_from_lines_join:
  "10 \<notin> set sub \<Longrightarrow> count_from sub (lines_join ls) = sum_list (map (count_from sub) ls)"
  by (induction ls) (simp_all add: lines_join_Nil lines_join_Cons count_from_sep)

lemma replace_from_lines_join:
  "10 \<notin> set old \<Longrightarrow>
     replace_from old new (lines_join ls) = lines_join (map (replace_from old new) ls)"
  by (induction ls) (simp_all add: lines_join_Nil lines_join_Cons replace_from_sep)

text \<open>The counts, line by line, over the 166 lines.\<close>

lemma readme_placeholders: "sum_list (map (count_from (str ''{{CODE}}'')) readme_lines) = 14"
  unfolding readme_lines_def
  by (simp add: count_from_str count_from_dash scan_eval
      del: count_from.simps(2) replace_from.simps(2))

lemma readme_delimiters: "sum_list (map (count_from (str ''```'')) readme_lines) = 0"
  unfolding readme_lines_def
  by (simp add: count_from_str count_from_dash scan_eval
      del: count_from.simps(2) replace_from.simps(2))

lemma readme_backtick_placeholders:
  "sum_list (map (count_from (str ''`{{CODE}}'')) readme_lines) = 0"
  unfolding readme_lines_def
  by (simp add: count_from_str count_from_dash scan_eval
      del: count_from.simps(2) replace_from.simps(2))

lemma rendered_delimiters:
  "sum_list (map (\<lambda>l. count_from (str ''```'') (replace_from (str ''{{CODE}}'') (str ''```'') l)) readme_lines) = 14"
  unfolding readme_lines_def
  by (simp add: count_from_str replace_from_str count_from_dash replace_from_dash scan_eval
      del: count_from.simps(2) replace_from.simps(2))

lemma rendered_placeholders:
  "sum_list (map (\<lambda>l. count_from (str ''{{CODE}}'') (replace_from (str ''{{CODE}}'') (str ''```'') l)) readme_lines) = 0"
  unfolding readme_lines_def
  by (simp add: count_from_str replace_from_str count_from_dash replace_from_dash scan_eval
      del: count_from.simps(2) replace_from.simps(2))

lemma placeholder_no_newline: "10 \<notin> set placeholder" "placeholder \<noteq> []"
  by (simp_all add: placeholder_eq)

lemma delimiter_no_newline: "10 \<notin> set delimiter" "delimiter \<noteq> []"
  by (simp_all add: delimiter_eq)

lemma render_readme_lines:
  "render readme_content = lines_join (map (replace_from placeholder delimiter) readme_lines)"
  by (simp add: render_def replace_def readme_content_def placeholder_no_newline
      replace_from_lines_join)

lemma count_readme_placeholder: "count readme_content placeholder = 14"
proof -
  have "count readme_content placeholder = count_from placeholder (lines_join readme_lines)"
    by (simp add: count_def readme_content_def placeholder_no_newline)
  also have "\<dots> = sum_list (map (count_from placeholder) readme_lines)"
    using placeholder_no_newline(1) by (rule count_from_lines_join)
  also have "\<dots> = 14"
    unfolding placeholder_def by (rule readme_placeholders)
  finally show ?thesis .
qed

lemma count_readme_delimiter: "count readme_content delimiter = 0"
proof -
  have "count readme_content delimiter = count_from delimiter (lines_join readme_lines)"
    by (simp add: count_def readme_content_def delimiter_no_newline)
  also have "\<dots> = sum_list (map (count_from delimiter) readme_lines)"
    using delimiter_no_newline(1) by (rule count_from_lines_join)
  also have "\<dots> = 0"
    unfolding delimiter_def by (rule readme_delimiters)
  finally show ?thesis .
qed

lemma count_readme_backtick_placeholder: "count readme_content (str ''`'' @ placeholder) = 0"
proof -
  have eq: "str ''`'' @ placeholder = str ''`{{CODE}}''"
    by (simp add: placeholder_def str_def)
  have nl: "10 \<notin> set (str ''`{{CODE}}'')" and ne: "str ''`{{CODE}}'' \<noteq> []"
    by (simp_all add: str_def)
  have "count readme_content (str ''`{{CODE}}'') = count_from (str ''`{{CODE}}'') (lines_join readme_lines)"
    using ne by (simp add: count_def readme_content_def)
  also have "\<dots> = sum_list (map (count_from (str ''`{{CODE}}'')) readme_lines)"
    using nl by (rule count_from_lines_join)
  also have "\<dots> = 0"
    by (rule readme_backtick_placeholders)
  finally show ?thesis
    unfolding eq .
qed

lemma count_rendered_delimiter: "count (render readme_content) delimiter = 14"
proof -
  have "count (render readme_content) delimiter =
      count_from delimiter (lines_join (map (replace_from placeholder delimiter) readme_lines))"
    by (simp add: count_def render_readme_lines delimiter_no_newline)
  also have "\<dots> =
      sum_list (map (count_from delimiter) (map (replace_from placeholder delimiter) readme_lines))"
    using delimiter_no_newline(1) by (rule count_from_lines_join)
  also have "\<dots> =
      sum_list (map (\<lambda>l. count_from delimiter (replace_from placeholder delimiter l)) readme_lines)"
    by (simp add: comp_def)
  also have "\<dots> = 14"
    unfolding delimiter_def placeholder_def by (rule rendered_delimiters)
  finally show ?thesis .
qed

lemma count_rendered_placeholder: "count (render readme_content) placeholder = 0"
proof -
  have "count (render readme_content) placeholder =
      count_from placeholder (lines_join (map (replace_from placeholder delimiter) readme_lines))"
    by (simp add: count_def render_readme_lines placeholder_no_newline)
  also have "\<dots> =
      sum_list (map (count_from placeholder) (map (replace_from placeholder delimiter) readme_lines))"
    using placeholder_no_newline(1) by (rule count_from_lines_join)
  also have "\<dots> =
      sum_list (map (\<lambda>l. count_from placeholder (replace_from placeholder delimiter l)) readme_lines)"
    by (simp add: comp_def)
  also have "\<dots> = 0"
    unfolding delimiter_def placeholder_def by (rule rendered_placeholders)
  finally show ?thesis .
qed

text \<open>
  Every code point of the rendered document can be encoded. The dash of the third line
  is the one that takes more than a byte.
\<close>

lemma encode_dash: "encode_utf8 [8212] = Inr [0xE2, 0x80, 0x94]"
  by (simp add: encode_char_def)

lemma encode_utf8_total:
  "list_all (\<lambda>c. c < 0xD800) s \<Longrightarrow> \<exists>bs. encode_utf8 s = Inr bs \<and> (s \<noteq> [] \<longrightarrow> bs \<noteq> [])"
proof (induction s)
  case Nil
  show ?case by simp
next
  case (Cons c cs)
  then obtain rest where rest: "encode_utf8 cs = Inr rest"
    by auto
  from Cons.prems have "c < 0xD800"
    by simp
  then have "\<exists>bs. encode_char c = Inr bs \<and> bs \<noteq> []"
    unfolding encode_char_def by simp
  then obtain bs where bs: "encode_char c = Inr bs" "bs \<noteq> []"
    by blast
  with rest show ?case
    by simp
qed

lemma list_all_str: "list_all (\<lambda>c. c < 0xD800) (str s)"
proof -
  have "c < 0xD800" if "c \<in> set (str s)" for c
    using str_ascii [OF that] by simp
  then show ?thesis
    by (simp add: list_all_iff)
qed

lemma list_all_replace_from:
  "list_all P s \<Longrightarrow> list_all P new \<Longrightarrow> list_all P (replace_from old new s)"
proof (induction old new s rule: replace_from.induct)
  case (1 old new)
  show ?case by simp
next
  case (2 old new c cs)
  show ?case
  proof (cases "old \<noteq> [] \<and> prefix old (c # cs)")
    case True
    from 2(3) have "list_all P (drop (length old) (c # cs))"
      unfolding list_all_iff by (meson in_set_dropD)
    with True 2(1) 2(4) have "list_all P (replace_from old new (drop (length old) (c # cs)))"
      by blast
    with True 2(4) show ?thesis
      by (simp del: drop_Suc_Cons)
  next
    case False
    with 2(2) 2(3) 2(4) have "list_all P (replace_from old new cs)"
      by simp
    with False 2(3) show ?thesis
      by auto
  qed
qed

lemma list_all_lines_join:
  "list_all (list_all P) ls \<Longrightarrow> P 10 \<Longrightarrow> list_all P (lines_join ls)"
  by (induction ls) (simp_all add: lines_join_Nil lines_join_Cons)

lemma readme_lines_encodable: "list_all (list_all (\<lambda>c. c < 0xD800)) readme_lines"
  unfolding readme_lines_def by (simp add: list_all_str)

lemma rendered_encodable: "list_all (\<lambda>c. c < 0xD800) (render readme_content)"
proof -
  have "list_all (\<lambda>c. c < 0xD800) readme_content"
    unfolding readme_content_def using readme_lines_encodable
    by (rule list_all_lines_join) simp
  moreover have "list_all (\<lambda>c. c < 0xD800) delimiter"
    unfolding delimiter_def by (rule list_all_str)
  ultimately show ?thesis
    by (simp add: render_def replace_def placeholder_no_newline list_all_replace_from)
qed

text \<open>
  The bytes of the document. A code point takes \<open>utf8_width\<close> bytes, and the sum of a
  function over a string changes under \<open>replace\<close> by what the occurrences and their
  replacements weigh.
\<close>

lemma encode_char_length: "encode_char c = Inr b \<Longrightarrow> length b = utf8_width c"
  by (auto simp: encode_char_def utf8_width_def split: if_splits)

lemma encode_utf8_length:
  "encode_utf8 s = Inr bs \<Longrightarrow> length bs = sum_list (map utf8_width s)"
proof (induction s arbitrary: bs)
  case Nil
  then show ?case by simp
next
  case (Cons c cs)
  from Cons.prems obtain b rest where b: "encode_char c = Inr b"
    and rest: "encode_utf8 cs = Inr rest" and bs: "bs = b @ rest"
    by (auto split: sum.splits)
  from Cons.IH [OF rest] encode_char_length [OF b] bs show ?case
    by simp
qed

lemma sum_replace_from:
  fixes f :: "'a \<Rightarrow> nat"
  shows "sum_list (map f (replace_from old new s)) + count_from old s * sum_list (map f old) =
     sum_list (map f s) + count_from old s * sum_list (map f new)"
proof (induction old new s rule: replace_from.induct)
  case (1 old new)
  show ?case by simp
next
  case (2 old new c cs)
  show ?case
  proof (cases "old \<noteq> [] \<and> prefix old (c # cs)")
    case True
    define rest where "rest = drop (length old) (c # cs)"
    from True have s: "c # cs = old @ rest"
      by (simp add: rest_def prefix_drop_eq del: drop_Suc_Cons)
    from True 2(1) have IH: "sum_list (map f (replace_from old new rest)) +
        count_from old rest * sum_list (map f old) =
        sum_list (map f rest) + count_from old rest * sum_list (map f new)"
      unfolding rest_def by blast
    have r: "replace_from old new (c # cs) = new @ replace_from old new rest"
      and k: "count_from old (c # cs) = Suc (count_from old rest)"
      using True by (simp_all add: rest_def del: drop_Suc_Cons)
    have "sum_list (map f (c # cs)) = sum_list (map f old) + sum_list (map f rest)"
      unfolding s by simp
    with IH r k show ?thesis
      by (simp add: algebra_simps del: list.map sum_list.Cons)
  next
    case False
    then have step: "replace_from old new (c # cs) = c # replace_from old new cs"
      "count_from old (c # cs) = count_from old cs"
      by auto
    from False 2(2) have "sum_list (map f (replace_from old new cs)) +
        count_from old cs * sum_list (map f old) =
        sum_list (map f cs) + count_from old cs * sum_list (map f new)"
      by blast
    with step show ?thesis
      by simp
  qed
qed

lemma sum_lines_join:
  fixes f :: "codepoint \<Rightarrow> nat"
  shows "sum_list (map f (lines_join ls)) = sum_list (map (\<lambda>l. sum_list (map f l) + f 10) ls)"
  by (induction ls) (simp_all add: lines_join_Nil lines_join_Cons)

text \<open>
  The characters of the literal are ASCII, but for the dash, and none of them is a line
  feed or a carriage return.
\<close>

lemma of_char_ascii: "\<not> digit7 c \<Longrightarrow> (of_char c :: nat) < 128"
  by (cases c) (simp add: of_bool_def)

lemma width_str: "list_all (\<lambda>c. \<not> digit7 c) s \<Longrightarrow> sum_list (map utf8_width (str s)) = length s"
  by (induction s) (simp_all add: str_def utf8_width_def of_char_ascii)

lemma of_char_not_newline:
  assumes "c \<noteq> CHR 0x0A"
  shows "(of_char c :: nat) \<noteq> 10"
proof
  assume "(of_char c :: nat) = 10"
  moreover have "(of_char (CHR 0x0A) :: nat) = 10"
    by simp
  ultimately have "(of_char c :: nat) = of_char (CHR 0x0A)"
    by (rule trans [OF _ sym])
  then have "c = CHR 0x0A"
    by (simp only: of_char_eq_iff)
  with assms show False ..
qed

lemma of_char_not_return:
  assumes "c \<noteq> CHR 0x0D"
  shows "(of_char c :: nat) \<noteq> 13"
proof
  assume "(of_char c :: nat) = 13"
  moreover have "(of_char (CHR 0x0D) :: nat) = 13"
    by simp
  ultimately have "(of_char c :: nat) = of_char (CHR 0x0D)"
    by (rule trans [OF _ sym])
  then have "c = CHR 0x0D"
    by (simp only: of_char_eq_iff)
  with assms show False ..
qed

lemma str_no_newline:
  "list_all (\<lambda>c. c \<noteq> CHR 0x0A \<and> c \<noteq> CHR 0x0D) s \<Longrightarrow>
     list_all (\<lambda>c. c \<noteq> 10 \<and> c \<noteq> 13) (str s)"
  by (induction s) (simp_all add: str_def of_char_not_newline of_char_not_return)

lemma width_dash: "utf8_width 8212 = 3"
  by (simp add: utf8_width_def)

lemma readme_lines_width:
  "sum_list (map (\<lambda>l. sum_list (map utf8_width l) + 1) readme_lines) = 5585"
  unfolding readme_lines_def by (simp add: width_str width_dash)

lemma readme_lines_no_newline:
  "list_all (list_all (\<lambda>c. c \<noteq> 10 \<and> c \<noteq> 13)) readme_lines"
  unfolding readme_lines_def by (simp add: str_no_newline)

lemma length_readme_lines: "length readme_lines = 166"
  unfolding readme_lines_def by simp

lemma width_readme: "sum_list (map utf8_width readme_content) = 5585"
proof -
  have "utf8_width 10 = 1"
    by (simp add: utf8_width_def)
  then show ?thesis
    unfolding readme_content_def sum_lines_join using readme_lines_width by simp
qed

lemma width_rendered: "sum_list (map utf8_width (render readme_content)) = 5515"
proof -
  have r: "render readme_content = replace_from placeholder delimiter readme_content"
    by (simp add: render_def replace_def placeholder_no_newline)
  have k: "count_from placeholder readme_content = 14"
    using count_readme_placeholder by (simp add: count_def placeholder_no_newline)
  have p: "sum_list (map utf8_width placeholder) = 8"
    and d: "sum_list (map utf8_width delimiter) = 3"
    by (simp_all add: placeholder_eq delimiter_eq utf8_width_def)
  from sum_replace_from [of utf8_width placeholder delimiter readme_content]
  show ?thesis
    unfolding r k p d width_readme by simp
qed

lemma count_newline_line:
  "list_all (\<lambda>c. c \<noteq> 10) l \<Longrightarrow> count_from [10] (l @ 10 # rest) = Suc (count_from [10] rest)"
  by (induction l) simp_all

lemma count_newline_lines_join:
  "list_all (list_all (\<lambda>c. c \<noteq> 10)) ls \<Longrightarrow> count_from [10] (lines_join ls) = length ls"
  by (induction ls) (simp_all add: lines_join_Nil lines_join_Cons count_newline_line)

lemma newlines_rendered: "count_from [10] (render readme_content) = 166"
proof -
  have d: "list_all (\<lambda>c. c \<noteq> 10) delimiter"
    by (simp add: delimiter_eq)
  have "list_all (\<lambda>c. c \<noteq> 10) (replace_from placeholder delimiter l)"
    if "l \<in> set readme_lines" for l
  proof -
    from readme_lines_no_newline that have "list_all (\<lambda>c. c \<noteq> 10) l"
      by (simp add: list_all_iff)
    then show ?thesis
      using d by (rule list_all_replace_from)
  qed
  then have "list_all (list_all (\<lambda>c. c \<noteq> 10)) (map (replace_from placeholder delimiter) readme_lines)"
    by (simp add: list_all_iff)
  then have "count_from [10] (render readme_content) =
      length (map (replace_from placeholder delimiter) readme_lines)"
    unfolding render_readme_lines by (rule count_newline_lines_join)
  then show ?thesis
    by (simp add: length_readme_lines)
qed

text \<open>What \<open>file.write\<close> hands to the codec, for either line separator.\<close>

lemma translate_newlines_LF: "translate_newlines (os_linesep LF) s = s"
  by (simp add: translate_newlines_def)

lemma translate_newlines_CRLF:
  "translate_newlines (os_linesep CRLF) s = replace_from [10] [13, 10] s"
  by (simp add: translate_newlines_def replace_def)

lemma width_written_CRLF:
  "sum_list (map utf8_width (translate_newlines (os_linesep CRLF) (render readme_content))) = 5681"
proof -
  have n: "sum_list (map utf8_width [10]) = 1" and rn: "sum_list (map utf8_width [13, 10]) = 2"
    by (simp_all add: utf8_width_def)
  from sum_replace_from [of utf8_width "[10]" "[13, 10]" "render readme_content"]
  show ?thesis
    unfolding translate_newlines_CRLF newlines_rendered n rn width_rendered by simp
qed

lemma written_encodable:
  "list_all (\<lambda>c. c < 0xD800) (translate_newlines (os_linesep sep) (render readme_content))"
proof (cases sep)
  case LF
  show ?thesis
    unfolding LF translate_newlines_LF by (rule rendered_encodable)
next
  case CRLF
  have "list_all (\<lambda>c. c < 0xD800) [13, 10 :: codepoint]"
    by simp
  with rendered_encodable show ?thesis
    unfolding CRLF translate_newlines_CRLF by (rule list_all_replace_from)
qed

lemma written_bytes:
  "\<exists>bs. encode_utf8 (translate_newlines (os_linesep sep) (render readme_content)) = Inr bs \<and>
        length bs = (case sep of LF \<Rightarrow> 5515 | CRLF \<Rightarrow> 5681)"
proof -
  obtain bs where bs: "encode_utf8 (translate_newlines (os_linesep sep) (render readme_content)) = Inr bs"
    using encode_utf8_total [OF written_encodable] by blast
  have "length bs = (case sep of LF \<Rightarrow> 5515 | CRLF \<Rightarrow> 5681)"
    unfolding encode_utf8_length [OF bs]
    by (cases sep) (simp_all add: translate_newlines_LF width_rendered width_written_CRLF
        del: os_linesep.simps)
  with bs show ?thesis
    by blast
qed

text \<open>
  Nothing of the document is lost in the translation: with the separator turned back into
  the newline, the text that was written is the rendered document.
\<close>

lemma replace_from_same: "new = old \<Longrightarrow> replace_from old new s = s"
proof (induction old new s rule: replace_from.induct)
  case (1 old new)
  show ?case by simp
next
  case (2 old new c cs)
  show ?case
  proof (cases "old \<noteq> [] \<and> prefix old (c # cs)")
    case True
    with 2(1) 2(3) have "replace_from old new (drop (length old) (c # cs)) = drop (length old) (c # cs)"
      by blast
    with True 2(3) show ?thesis
      by (simp add: prefix_drop_eq del: drop_Suc_Cons)
  next
    case False
    with 2(2) 2(3) have "replace_from old new cs = cs"
      by blast
    with False show ?thesis
      by auto
  qed
qed

lemma untranslate_CRLF:
  "list_all (\<lambda>c. c \<noteq> 13) s \<Longrightarrow> replace_from [13, 10] [10] (replace_from [10] [13, 10] s) = s"
  by (induction s) auto

lemma rendered_no_return: "list_all (\<lambda>c. c \<noteq> 13) (render readme_content)"
proof -
  have "list_all (list_all (\<lambda>c. c \<noteq> 13)) readme_lines"
    using readme_lines_no_newline by (simp add: list_all_iff)
  then have "list_all (\<lambda>c. c \<noteq> 13) readme_content"
    unfolding readme_content_def by (rule list_all_lines_join) simp
  moreover have "list_all (\<lambda>c. c \<noteq> 13) delimiter"
    by (simp add: delimiter_eq)
  ultimately show ?thesis
    by (simp add: render_def replace_def placeholder_no_newline list_all_replace_from)
qed

lemma written_text_back:
  "replace (translate_newlines (os_linesep sep) (render readme_content)) (os_linesep sep) [10] =
     render readme_content"
proof (cases sep)
  case LF
  show ?thesis
    unfolding LF translate_newlines_LF by (simp add: replace_def replace_from_same)
next
  case CRLF
  show ?thesis
    unfolding CRLF translate_newlines_CRLF
    using untranslate_CRLF [OF rendered_no_return] by (simp add: replace_def)
qed

subsection \<open>Runs of the script\<close>

text \<open>
  The three ways through the script, once the bytes of the document are known: \<open>open\<close>
  fails; the write fails after \<open>n\<close> bytes; both succeed. The bytes are those of the
  string that \<open>file.write\<close> has translated for the line separator of the run.
\<close>

lemma with_open_write_run:
  assumes "encode_utf8 (translate_newlines (os_linesep (linesep env)) content) = Inr bs"
  shows "with_open_write p content env w =
     (if open_fails env
      then (Inl StorageError, w\<lparr>syscalls := syscalls w @ [SysOpen p]\<rparr>)
      else case write_fails env of
        None \<Rightarrow>
          (Inr (), w\<lparr>files := (files w)(p \<mapsto> bs),
                      syscalls := syscalls w @ [SysOpen p, SysWrite p, SysClose p]\<rparr>)
      | Some n \<Rightarrow>
          (Inl StorageError, w\<lparr>files := (files w)(p \<mapsto> take n bs),
                                 syscalls := syscalls w @ [SysOpen p, SysWrite p, SysClose p]\<rparr>))"
  using assms
  by (simp add: with_open_write_def py_open_def file_write_def file_close_def split: option.splits)

lemma main_run:
  assumes "encode_utf8 (translate_newlines (os_linesep (linesep env)) (render readme_content)) = Inr bs"
  shows "main env w =
     (if open_fails env
      then (Inl StorageError, w\<lparr>syscalls := syscalls w @ [SysOpen ''README.md'']\<rparr>)
      else case write_fails env of
        None \<Rightarrow>
          (Inr (), w\<lparr>files := (files w)(''README.md'' \<mapsto> bs),
                      stdout := stdout w @ [str ''README.md has been written successfully.''],
                      syscalls := syscalls w @
                        [SysOpen ''README.md'', SysWrite ''README.md'', SysClose ''README.md'']\<rparr>)
      | Some n \<Rightarrow>
          (Inl StorageError, w\<lparr>files := (files w)(''README.md'' \<mapsto> take n bs),
                                 syscalls := syscalls w @
                        [SysOpen ''README.md'', SysWrite ''README.md'', SysClose ''README.md'']\<rparr>))"
  unfolding main_def with_open_write_run [OF assms]
  by (simp add: py_print_def split: option.splits)

lemma main_succeeds:
  "\<not> open_fails env \<Longrightarrow> write_fails env = None \<Longrightarrow> fst (main env w) = Inr ()"
  using written_bytes [of "linesep env"] by (auto simp: main_run)

lemma with_open_write_handles: "handles (snd (with_open_write p content env w)) = handles w"
  by (simp add: with_open_write_def py_open_def file_write_def file_close_def Let_def
      split: sum.splits option.splits)

lemma with_open_write_closes:
  "\<not> open_fails env \<Longrightarrow> last (syscalls (snd (with_open_write p content env w))) = SysClose p"
  by (simp add: with_open_write_def py_open_def file_write_def file_close_def Let_def
      split: sum.splits option.splits)

section \<open>The claims\<close>

subsection \<open>Rendering\<close>

text \<open>
  C1. \<open>render\<close> replaces every occurrence of \<open>{{CODE}}\<close> by three backticks, left to
  right, without overlap and without reading again what it has inserted; the template
  \<open>a{{CODE}}b\<close> renders to \<open>a```b\<close>. The second part is the scan itself, for any
  \<open>old\<close> and \<open>new\<close>: when the first occurrence of \<open>old\<close> starts right after \<open>pre\<close>,
  the text before it is kept, the occurrence becomes \<open>new\<close>, and only the text after the
  occurrence is scanned further.
\<close>

theorem render_left_to_right:
  "render (str ''a{{CODE}}b'') = str ''a```b'' \<and>
   (old \<noteq> [] \<and> count (pre @ butlast old) old = 0 \<longrightarrow>
      replace (pre @ old @ rest) old new = pre @ new @ replace rest old new)"
proof
  show "render (str ''a{{CODE}}b'') = str ''a```b''"
    by (simp add: render_def replace_def placeholder_def delimiter_def str_def)
next
  show "old \<noteq> [] \<and> count (pre @ butlast old) old = 0 \<longrightarrow>
      replace (pre @ old @ rest) old new = pre @ new @ replace rest old new"
    by (simp add: replace_def count_def replace_from_at_first)
qed

theorem render_left_to_right_witness:
  "''ab'' \<noteq> [] \<and> count ([] @ butlast ''ab'') ''ab'' = 0 \<and>
   replace ([] @ ''ab'' @ ''b'') ''ab'' ''a'' = [] @ ''a'' @ replace ''b'' ''ab'' ''a'' \<and>
   replace ''abb'' ''ab'' ''a'' = ''ab''"
  using render_left_to_right [of "''ab''" "[]" "''b''" "''a''"]
  by (simp add: replace_def count_def)

text \<open>
  C2. The rendered document is as long as the template plus
  \<open>(len(delimiter) - len(placeholder))\<close> times the number of occurrences of the
  placeholder. The difference is negative, so the equation is one of integers.
\<close>

theorem render_length:
  "int (length (render template)) =
     int (length template) +
       (int (length delimiter) - int (length placeholder)) * int (count template placeholder)"
  by (simp add: render_def length_replace)

text \<open>
  C3, as amended. The claim is that the rendered document always holds as many delimiters
  as the template holds placeholders and delimiters together. A backtick right before a
  placeholder joins the three that are inserted, and two more behind it make a second
  delimiter that the template did not have. Where no placeholder stands right after a
  backtick, the count is as claimed; the template of the source is such a template, and
  it holds no delimiter.
\<close>

theorem render_roundtrip_count:
  "(count template (str ''`'' @ placeholder) = 0 \<longrightarrow>
      count (render template) delimiter = count template placeholder + count template delimiter) \<and>
   count readme_content (str ''`'' @ placeholder) = 0 \<and>
   count readme_content delimiter = 0"
proof -
  have general: "count (render template) delimiter =
      count template placeholder + count template delimiter"
    if "count template (str ''`'' @ placeholder) = 0"
  proof -
    from that have free: "count_from (96 # placeholder) template = 0"
      by (simp add: count_def str_def)
    have "96 \<notin> set placeholder" and "placeholder \<noteq> []"
      by (simp_all add: placeholder_eq)
    from roundtrip_from [OF this free] show ?thesis
      by (simp add: render_def replace_def count_def delimiter_eq placeholder_eq)
  qed
  then show ?thesis
    using count_readme_backtick_placeholder count_readme_delimiter by blast
qed

theorem render_roundtrip_count_witness:
  "count (str ''`x` {{CODE}}rust ```'') (str ''`'' @ placeholder) = 0 \<and>
   count (render (str ''`x` {{CODE}}rust ```'')) delimiter =
     count (str ''`x` {{CODE}}rust ```'') placeholder + count (str ''`x` {{CODE}}rust ```'') delimiter \<and>
   count (render (str ''`x` {{CODE}}rust ```'')) delimiter = 2"
proof -
  let ?t = "str ''`x` {{CODE}}rust ```''"
  have free: "count ?t (str ''`'' @ placeholder) = 0"
    by (simp add: count_def placeholder_def str_def)
  with render_roundtrip_count [of ?t]
  have "count (render ?t) delimiter = count ?t placeholder + count ?t delimiter"
    by blast
  moreover have "count (render ?t) delimiter = 2"
    by (simp add: render_def replace_def count_def delimiter_def placeholder_def str_def)
  ultimately show ?thesis
    using free by blast
qed

text \<open>
  The claim as it was stated fails for the template made of a backtick, the placeholder
  and two backticks: it renders to six backticks, which are two delimiters, while the
  template has one placeholder and no delimiter.
\<close>

theorem render_roundtrip_count_counterexample:
  "count (render (str ''`{{CODE}}``'')) delimiter = 2 \<and>
   count (str ''`{{CODE}}``'') placeholder + count (str ''`{{CODE}}``'') delimiter = 1"
  by (simp add: render_def replace_def count_def delimiter_def placeholder_def str_def)

text \<open>
  C4. A template without the placeholder is rendered to itself.
\<close>

theorem render_identity:
  "count template placeholder = 0 \<Longrightarrow> render template = template"
  by (simp add: render_def replace_none)

theorem render_identity_witness:
  "count (str ''## Features'') placeholder = 0 \<and> render (str ''## Features'') = str ''## Features''"
  using render_identity [of "str ''## Features''"]
  by (simp add: count_def placeholder_def str_def)

text \<open>
  C5. Rendering replaces all occurrences of the placeholder and nothing else, and it is
  deterministic. A template with \<open>N\<close> occurrences is \<open>N + 1\<close> pieces with the
  placeholder between them; the rendered document is the same pieces with the delimiter
  between them; no piece holds a placeholder. The rendered document is a function of the
  template alone, and any two runs of the script that succeed with the same line
  separator, in whatever world, leave the same bytes in \<open>README.md\<close>.
\<close>

theorem render_all_and_only:
  "length (segments placeholder template) = Suc (count template placeholder) \<and>
   join placeholder (segments placeholder template) = template \<and>
   join delimiter (segments placeholder template) = render template \<and>
   list_all (\<lambda>seg. count seg placeholder = 0) (segments placeholder template) \<and>
   (linesep env1 = linesep env2 \<and> fst (main env1 w1) = Inr () \<and> fst (main env2 w2) = Inr () \<longrightarrow>
      files (snd (main env1 w1)) ''README.md'' = files (snd (main env2 w2)) ''README.md'')"
proof -
  have ne: "placeholder \<noteq> []"
    by (rule placeholder_no_newline)
  have 1: "length (segments placeholder template) = Suc (count template placeholder)"
    using ne by (simp add: count_def length_segments)
  have 2: "join placeholder (segments placeholder template) = template"
    by (rule join_segments_old)
  have 3: "join delimiter (segments placeholder template) = render template"
    using ne by (simp add: render_def replace_def join_segments_new)
  have 4: "list_all (\<lambda>seg. count seg placeholder = 0) (segments placeholder template)"
    using ne segments_free [of placeholder template] by (simp add: count_def)
  have 5: "files (snd (main env1 w1)) ''README.md'' = files (snd (main env2 w2)) ''README.md''"
    if same: "linesep env1 = linesep env2"
      and ok: "fst (main env1 w1) = Inr ()" "fst (main env2 w2) = Inr ()"
  proof -
    obtain bs where bs1: "encode_utf8
        (translate_newlines (os_linesep (linesep env1)) (render readme_content)) = Inr bs"
      using written_bytes by blast
    then have bs2: "encode_utf8
        (translate_newlines (os_linesep (linesep env2)) (render readme_content)) = Inr bs"
      using same by simp
    from ok show ?thesis
      by (auto simp: main_run [OF bs1] main_run [OF bs2] split: if_splits option.splits)
  qed
  from 1 2 3 4 5 show ?thesis
    by blast
qed

theorem render_all_and_only_witness:
  "fst (main \<lparr>open_fails = False, write_fails = None, linesep = CRLF\<rparr>
          \<lparr>files = Map.empty, handles = [], stdout = [], syscalls = []\<rparr>) = Inr () \<and>
   fst (main \<lparr>open_fails = False, write_fails = None, linesep = CRLF\<rparr>
          \<lparr>files = [''README.md'' \<mapsto> [1, 2, 3]], handles = [], stdout = [str ''before''],
            syscalls = []\<rparr>) = Inr () \<and>
   files (snd (main \<lparr>open_fails = False, write_fails = None, linesep = CRLF\<rparr>
          \<lparr>files = Map.empty, handles = [], stdout = [], syscalls = []\<rparr>)) ''README.md'' =
   files (snd (main \<lparr>open_fails = False, write_fails = None, linesep = CRLF\<rparr>
          \<lparr>files = [''README.md'' \<mapsto> [1, 2, 3]], handles = [], stdout = [str ''before''],
            syscalls = []\<rparr>)) ''README.md'' \<and>
   segments placeholder (str ''a{{CODE}}b'') = [str ''a'', str ''b'']"
proof -
  let ?env = "\<lparr>open_fails = False, write_fails = None, linesep = CRLF\<rparr>"
  let ?w1 = "\<lparr>files = Map.empty, handles = [], stdout = [], syscalls = []\<rparr>"
  let ?w2 = "\<lparr>files = [''README.md'' \<mapsto> [1, 2, 3]], handles = [], stdout = [str ''before''],
      syscalls = []\<rparr>"
  have ok: "fst (main ?env ?w1) = Inr ()" "fst (main ?env ?w2) = Inr ()"
    by (simp_all add: main_succeeds)
  with render_all_and_only [of "str ''a{{CODE}}b''" ?env ?env ?w1 ?w2]
  have same: "files (snd (main ?env ?w1)) ''README.md'' = files (snd (main ?env ?w2)) ''README.md''"
    by blast
  have "segments placeholder (str ''a{{CODE}}b'') = [str ''a'', str ''b'']"
    by (simp add: placeholder_def str_def)
  with ok same show ?thesis
    by blast
qed

text \<open>
  C10. The template of the source has 14 placeholders; its rendering has 14 delimiters
  and the placeholder is no longer a substring of it.
\<close>

theorem readme_counts:
  "count readme_content placeholder = 14 \<and>
   count (render readme_content) delimiter = 14 \<and>
   count (render readme_content) placeholder = 0 \<and>
   \<not> sublist placeholder (render readme_content)"
proof -
  have "count_from placeholder (render readme_content) = 0"
    using count_rendered_placeholder by (simp add: count_def placeholder_no_newline)
  then have "\<not> sublist placeholder (render readme_content)"
    using count_from_zero_iff [of placeholder "render readme_content"]
    by (simp add: placeholder_no_newline)
  then show ?thesis
    by (simp add: count_readme_placeholder count_rendered_delimiter count_rendered_placeholder)
qed

subsection \<open>Writing\<close>

text \<open>
  C6. The script ends with a \<open>StorageError\<close> exactly when the destination cannot be
  opened or the write fails, and with no other error. The error of the \<open>with\<close> block is
  the error of the script; nothing is printed then; and the script performs one
  \<open>open\<close>, and after a successful \<open>open\<close> one \<open>write\<close> and one \<open>close\<close>: nothing is
  tried a second time.
\<close>

theorem storage_error_propagates:
  "(fst (main env w) = Inl StorageError) = (open_fails env \<or> write_fails env \<noteq> None) \<and>
   (fst (main env w) = Inr ()) = (\<not> open_fails env \<and> write_fails env = None) \<and>
   fst (main env w) = fst (with_open_write ''README.md'' (render readme_content) env w) \<and>
   (fst (main env w) \<noteq> Inr () \<longrightarrow> stdout (snd (main env w)) = stdout w) \<and>
   syscalls (snd (main env w)) = syscalls w @
     (if open_fails env then [SysOpen ''README.md'']
      else [SysOpen ''README.md'', SysWrite ''README.md'', SysClose ''README.md''])"
proof -
  obtain bs where bs: "encode_utf8
      (translate_newlines (os_linesep (linesep env)) (render readme_content)) = Inr bs"
    using written_bytes by blast
  show ?thesis
    by (simp add: main_run [OF bs] with_open_write_run [OF bs] split: option.splits)
qed

theorem storage_error_propagates_witness:
  "fst (main \<lparr>open_fails = True, write_fails = None, linesep = LF\<rparr>
          \<lparr>files = Map.empty, handles = [], stdout = [], syscalls = []\<rparr>) = Inl StorageError \<and>
   stdout (snd (main \<lparr>open_fails = True, write_fails = None, linesep = LF\<rparr>
          \<lparr>files = Map.empty, handles = [], stdout = [], syscalls = []\<rparr>)) = [] \<and>
   syscalls (snd (main \<lparr>open_fails = True, write_fails = None, linesep = LF\<rparr>
          \<lparr>files = Map.empty, handles = [], stdout = [], syscalls = []\<rparr>)) =
     [SysOpen ''README.md'']"
  using storage_error_propagates [of "\<lparr>open_fails = True, write_fails = None, linesep = LF\<rparr>"
      "\<lparr>files = Map.empty, handles = [], stdout = [], syscalls = []\<rparr>"]
  by simp

text \<open>
  C7, as amended. The claim is that after a successful run \<open>README.md\<close> holds exactly
  the UTF-8 encoding of the rendered document. The file is opened in text mode, so what
  it holds is the rendered document in UTF-8 with every newline written as the line
  separator of the platform, and one line more has been printed: the confirmation. With
  the line feed as separator the file is 5515 bytes, the UTF-8 encoding of the rendered
  string itself, as claimed; with carriage return and line feed it is 5681 bytes, two for
  each of the 166 newlines. Either way the text that was written, with the separator read
  as a newline again, is the rendered document.
\<close>

theorem success_writes_document:
  "fst (main env w) = Inr () \<Longrightarrow>
     (\<exists>bs. encode_utf8
             (translate_newlines (os_linesep (linesep env)) (render readme_content)) = Inr bs \<and>
           files (snd (main env w)) ''README.md'' = Some bs \<and>
           length bs = (case linesep env of LF \<Rightarrow> 5515 | CRLF \<Rightarrow> 5681) \<and>
           (linesep env = LF \<longrightarrow> encode_utf8 (render readme_content) = Inr bs)) \<and>
     replace (translate_newlines (os_linesep (linesep env)) (render readme_content))
       (os_linesep (linesep env)) [10] = render readme_content \<and>
     stdout (snd (main env w)) = stdout w @ [str ''README.md has been written successfully.'']"
proof -
  assume ok: "fst (main env w) = Inr ()"
  obtain bs where bs: "encode_utf8
      (translate_newlines (os_linesep (linesep env)) (render readme_content)) = Inr bs"
    and len: "length bs = (case linesep env of LF \<Rightarrow> 5515 | CRLF \<Rightarrow> 5681)"
    using written_bytes by blast
  from ok have run: "\<not> open_fails env" "write_fails env = None"
    by (auto simp: main_run [OF bs] split: if_splits option.splits)
  have stored: "files (snd (main env w)) ''README.md'' = Some bs"
    and out: "stdout (snd (main env w)) =
      stdout w @ [str ''README.md has been written successfully.'']"
    using run by (simp_all add: main_run [OF bs])
  have plain: "encode_utf8 (render readme_content) = Inr bs" if "linesep env = LF"
    using bs that by (simp add: translate_newlines_def)
  from bs len stored out plain written_text_back show ?thesis
    by blast
qed

theorem success_writes_document_witness:
  "fst (main \<lparr>open_fails = False, write_fails = None, linesep = LF\<rparr>
          \<lparr>files = Map.empty, handles = [], stdout = [str ''before''], syscalls = []\<rparr>) = Inr () \<and>
   (\<exists>bs. encode_utf8 (render readme_content) = Inr bs \<and> length bs = 5515 \<and>
         files (snd (main \<lparr>open_fails = False, write_fails = None, linesep = LF\<rparr>
          \<lparr>files = Map.empty, handles = [], stdout = [str ''before''], syscalls = []\<rparr>))
           ''README.md'' = Some bs) \<and>
   stdout (snd (main \<lparr>open_fails = False, write_fails = None, linesep = LF\<rparr>
          \<lparr>files = Map.empty, handles = [], stdout = [str ''before''], syscalls = []\<rparr>)) =
     [str ''before'', str ''README.md has been written successfully.''] \<and>
   fst (main \<lparr>open_fails = False, write_fails = None, linesep = CRLF\<rparr>
          \<lparr>files = Map.empty, handles = [], stdout = [str ''before''], syscalls = []\<rparr>) = Inr () \<and>
   (\<exists>bs. length bs = 5681 \<and>
         files (snd (main \<lparr>open_fails = False, write_fails = None, linesep = CRLF\<rparr>
          \<lparr>files = Map.empty, handles = [], stdout = [str ''before''], syscalls = []\<rparr>))
           ''README.md'' = Some bs)"
proof -
  let ?lf = "\<lparr>open_fails = False, write_fails = None, linesep = LF\<rparr>"
  let ?crlf = "\<lparr>open_fails = False, write_fails = None, linesep = CRLF\<rparr>"
  let ?w = "\<lparr>files = Map.empty, handles = [], stdout = [str ''before''], syscalls = []\<rparr>"
  have ok: "fst (main ?lf ?w) = Inr ()" "fst (main ?crlf ?w) = Inr ()"
    by (simp_all add: main_succeeds)
  from success_writes_document [OF ok(1)]
  have lf: "\<exists>bs. encode_utf8 (render readme_content) = Inr bs \<and> length bs = 5515 \<and>
      files (snd (main ?lf ?w)) ''README.md'' = Some bs"
    and out: "stdout (snd (main ?lf ?w)) =
      [str ''before'', str ''README.md has been written successfully.'']"
    by auto
  from success_writes_document [OF ok(2)]
  have crlf: "\<exists>bs. length bs = 5681 \<and> files (snd (main ?crlf ?w)) ''README.md'' = Some bs"
    by auto
  from ok lf out crlf show ?thesis
    by blast
qed

text \<open>
  The claim as it was stated fails where the line separator is carriage return and line
  feed: the run succeeds and leaves 5681 bytes, while the UTF-8 encoding of the rendered
  document has 5515.
\<close>

theorem success_writes_document_counterexample:
  "fst (main \<lparr>open_fails = False, write_fails = None, linesep = CRLF\<rparr>
          \<lparr>files = Map.empty, handles = [], stdout = [], syscalls = []\<rparr>) = Inr () \<and>
   map_option length
     (files (snd (main \<lparr>open_fails = False, write_fails = None, linesep = CRLF\<rparr>
          \<lparr>files = Map.empty, handles = [], stdout = [], syscalls = []\<rparr>)) ''README.md'') =
     Some 5681 \<and>
   map_sum id length (encode_utf8 (render readme_content)) = Inr 5515 \<and>
   map_option Inr
     (files (snd (main \<lparr>open_fails = False, write_fails = None, linesep = CRLF\<rparr>
          \<lparr>files = Map.empty, handles = [], stdout = [], syscalls = []\<rparr>)) ''README.md'') \<noteq>
     Some (encode_utf8 (render readme_content))"
proof -
  let ?env = "\<lparr>open_fails = False, write_fails = None, linesep = CRLF\<rparr>"
  let ?w = "\<lparr>files = Map.empty, handles = [], stdout = [], syscalls = []\<rparr>"
  obtain bs where bs: "encode_utf8
      (translate_newlines (os_linesep (linesep ?env)) (render readme_content)) = Inr bs"
    and len: "length bs = 5681"
    using written_bytes [of "linesep ?env"] by auto
  have run: "fst (main ?env ?w) = Inr ()" "files (snd (main ?env ?w)) ''README.md'' = Some bs"
    by (simp_all add: main_run [OF bs])
  obtain plain where plain: "encode_utf8 (render readme_content) = Inr plain"
    and len': "length plain = 5515"
    using written_bytes [of LF] by (auto simp: translate_newlines_def)
  from len len' have "bs \<noteq> plain"
    by auto
  with run len plain len' show ?thesis
    by simp
qed

text \<open>
  C8, as amended. The claim is that one or two runs against a writable destination leave
  in it exactly the UTF-8 encoding of the rendered document, whatever it held before.
  What a run leaves is exactly what this run writes, the rendered document in UTF-8
  with the line separator of the run, and a second run leaves exactly what the second run
  writes: \<open>open\<close> truncates, so nothing is appended and nothing grows. With the same
  separator the second run leaves the bytes of the first; with the line feed they are the
  UTF-8 encoding of the rendered string itself, as claimed.
\<close>

theorem overwrite_idempotent:
  "\<not> open_fails env1 \<and> write_fails env1 = None \<and> \<not> open_fails env2 \<and> write_fails env2 = None \<Longrightarrow>
     \<exists>bs1 bs2.
       encode_utf8
         (translate_newlines (os_linesep (linesep env1)) (render readme_content)) = Inr bs1 \<and>
       encode_utf8
         (translate_newlines (os_linesep (linesep env2)) (render readme_content)) = Inr bs2 \<and>
       files (snd (main env1 w)) ''README.md'' = Some bs1 \<and>
       files (snd (main env2 (snd (main env1 w)))) ''README.md'' = Some bs2 \<and>
       length bs2 = (case linesep env2 of LF \<Rightarrow> 5515 | CRLF \<Rightarrow> 5681) \<and>
       (linesep env1 = linesep env2 \<longrightarrow> bs2 = bs1) \<and>
       (linesep env2 = LF \<longrightarrow> encode_utf8 (render readme_content) = Inr bs2)"
proof -
  assume ok: "\<not> open_fails env1 \<and> write_fails env1 = None \<and>
      \<not> open_fails env2 \<and> write_fails env2 = None"
  obtain bs1 where bs1: "encode_utf8
      (translate_newlines (os_linesep (linesep env1)) (render readme_content)) = Inr bs1"
    using written_bytes by blast
  obtain bs2 where bs2: "encode_utf8
      (translate_newlines (os_linesep (linesep env2)) (render readme_content)) = Inr bs2"
    and len: "length bs2 = (case linesep env2 of LF \<Rightarrow> 5515 | CRLF \<Rightarrow> 5681)"
    using written_bytes by blast
  from ok have once: "files (snd (main env1 w)) ''README.md'' = Some bs1"
    by (simp add: main_run [OF bs1])
  from ok have twice: "files (snd (main env2 (snd (main env1 w)))) ''README.md'' = Some bs2"
    by (simp add: main_run [OF bs2])
  have same: "bs2 = bs1" if "linesep env1 = linesep env2"
    using bs1 bs2 that by simp
  have plain: "encode_utf8 (render readme_content) = Inr bs2" if "linesep env2 = LF"
    using bs2 that by (simp add: translate_newlines_def)
  from bs1 bs2 once twice len same plain show ?thesis
    by blast
qed

theorem overwrite_idempotent_witness:
  "files \<lparr>files = [''README.md'' \<mapsto> [1, 2, 3]], handles = [], stdout = [], syscalls = []\<rparr>
     ''README.md'' = Some [1, 2, 3] \<and>
   (\<exists>bs. encode_utf8 (render readme_content) = Inr bs \<and> length bs = 5515 \<and>
      files (snd (main \<lparr>open_fails = False, write_fails = None, linesep = LF\<rparr>
        \<lparr>files = [''README.md'' \<mapsto> [1, 2, 3]], handles = [], stdout = [], syscalls = []\<rparr>))
        ''README.md'' = Some bs \<and>
      files (snd (main \<lparr>open_fails = False, write_fails = None, linesep = LF\<rparr>
        (snd (main \<lparr>open_fails = False, write_fails = None, linesep = LF\<rparr>
          \<lparr>files = [''README.md'' \<mapsto> [1, 2, 3]], handles = [], stdout = [], syscalls = []\<rparr>))))
        ''README.md'' = Some bs)"
proof -
  let ?env = "\<lparr>open_fails = False, write_fails = None, linesep = LF\<rparr>"
  let ?w = "\<lparr>files = [''README.md'' \<mapsto> [1, 2, 3]], handles = [], stdout = [], syscalls = []\<rparr>"
  have "\<not> open_fails ?env \<and> write_fails ?env = None \<and> \<not> open_fails ?env \<and> write_fails ?env = None"
    by simp
  from overwrite_idempotent [OF this, of ?w]
  have "\<exists>bs. encode_utf8 (render readme_content) = Inr bs \<and> length bs = 5515 \<and>
      files (snd (main ?env ?w)) ''README.md'' = Some bs \<and>
      files (snd (main ?env (snd (main ?env ?w)))) ''README.md'' = Some bs"
    by auto
  then show ?thesis
    by simp
qed

text \<open>
  The claim as it was stated fails where the line separator is carriage return and line
  feed: two runs over a file of three bytes leave 5681 bytes, not the 5515 of the UTF-8
  encoding of the rendered document.
\<close>

theorem overwrite_idempotent_counterexample:
  "map_option length
     (files (snd (main \<lparr>open_fails = False, write_fails = None, linesep = CRLF\<rparr>
        (snd (main \<lparr>open_fails = False, write_fails = None, linesep = CRLF\<rparr>
          \<lparr>files = [''README.md'' \<mapsto> [1, 2, 3]], handles = [], stdout = [], syscalls = []\<rparr>))))
        ''README.md'') = Some 5681 \<and>
   map_sum id length (encode_utf8 (render readme_content)) = Inr 5515 \<and>
   map_option Inr
     (files (snd (main \<lparr>open_fails = False, write_fails = None, linesep = CRLF\<rparr>
        (snd (main \<lparr>open_fails = False, write_fails = None, linesep = CRLF\<rparr>
          \<lparr>files = [''README.md'' \<mapsto> [1, 2, 3]], handles = [], stdout = [], syscalls = []\<rparr>))))
        ''README.md'') \<noteq>
     Some (encode_utf8 (render readme_content))"
proof -
  let ?env = "\<lparr>open_fails = False, write_fails = None, linesep = CRLF\<rparr>"
  let ?w = "\<lparr>files = [''README.md'' \<mapsto> [1, 2, 3]], handles = [], stdout = [], syscalls = []\<rparr>"
  obtain bs where bs: "encode_utf8
      (translate_newlines (os_linesep (linesep ?env)) (render readme_content)) = Inr bs"
    and len: "length bs = 5681"
    using written_bytes [of "linesep ?env"] by auto
  have run: "files (snd (main ?env (snd (main ?env ?w)))) ''README.md'' = Some bs"
    by (simp add: main_run [OF bs])
  obtain plain where plain: "encode_utf8 (render readme_content) = Inr plain"
    and len': "length plain = 5515"
    using written_bytes [of LF] by (auto simp: translate_newlines_def)
  from len len' have "bs \<noteq> plain"
    by auto
  with run len plain len' show ?thesis
    by simp
qed

text \<open>
  C9. The descriptor that \<open>open\<close> acquires is released on every way out of the \<open>with\<close>
  block, for every path, content, environment and world: the descriptors open after the
  block are those open before it, and when \<open>open\<close> succeeded the \<open>close\<close> is the last
  thing the block does. The same holds for the whole script.
\<close>

theorem handle_released:
  "handles (snd (with_open_write p content env w)) = handles w \<and>
   handles (snd (main env w)) = handles w \<and>
   (\<not> open_fails env \<longrightarrow>
      handles (snd (py_open env p w)) = p # handles w \<and>
      last (syscalls (snd (with_open_write p content env w))) = SysClose p)"
proof -
  obtain bs where bs: "encode_utf8
      (translate_newlines (os_linesep (linesep env)) (render readme_content)) = Inr bs"
    using written_bytes by blast
  have "handles (snd (main env w)) = handles w"
    by (simp add: main_run [OF bs] split: option.splits)
  then show ?thesis
    by (simp add: with_open_write_handles with_open_write_closes py_open_def)
qed

theorem handle_released_witness:
  "\<not> open_fails \<lparr>open_fails = False, write_fails = Some 1, linesep = CRLF\<rparr> \<and>
   fst (with_open_write ''README.md'' (str ''abc'')
          \<lparr>open_fails = False, write_fails = Some 1, linesep = CRLF\<rparr>
          \<lparr>files = Map.empty, handles = [], stdout = [], syscalls = []\<rparr>) = Inl StorageError \<and>
   handles (snd (py_open \<lparr>open_fails = False, write_fails = Some 1, linesep = CRLF\<rparr> ''README.md''
          \<lparr>files = Map.empty, handles = [], stdout = [], syscalls = []\<rparr>)) = [''README.md''] \<and>
   handles (snd (with_open_write ''README.md'' (str ''abc'')
          \<lparr>open_fails = False, write_fails = Some 1, linesep = CRLF\<rparr>
          \<lparr>files = Map.empty, handles = [], stdout = [], syscalls = []\<rparr>)) = [] \<and>
   last (syscalls (snd (with_open_write ''README.md'' (str ''abc'')
          \<lparr>open_fails = False, write_fails = Some 1, linesep = CRLF\<rparr>
          \<lparr>files = Map.empty, handles = [], stdout = [], syscalls = []\<rparr>))) = SysClose ''README.md''"
  using handle_released [of "''README.md''" "str ''abc''"
      "\<lparr>open_fails = False, write_fails = Some 1, linesep = CRLF\<rparr>"
      "\<lparr>files = Map.empty, handles = [], stdout = [], syscalls = []\<rparr>"]
  by (simp add: with_open_write_def py_open_def file_write_def file_close_def str_def
      encode_char_def translate_newlines_def replace_def)

end
